theory Spec2Isabelle
  imports Main "HOL-Library.Monad_Syntax" "HOL-Library.Word"
begin

unbundle bit_operations_syntax

section \<open>Errors raised by the modelled code\<close>

datatype py_error =
    JacobiError
  | SquareRootError
  | AssertionError
  | ZeroDivisionError
  | RuntimeError
  | StructError
  | OverflowError
  | ValueError
  | MalformedPointError
  | IndexError
  | AttributeError
  | NameError

section \<open>Field and group arithmetic (cm\_ecdsa/numbertheory.py)\<close>

subsection \<open>inverse\_mod\<close>

text \<open>
  The loop of \<open>inverse_mod\<close>:
  \<^verbatim>\<open>while low > 1: r = high // low; lm, low, hm, high = hm - lm*r, high - low*r, lm, low\<close>
  and the value \<open>lm\<close> with which it leaves.
\<close>

function inverse_mod_loop :: "int \<Rightarrow> int \<Rightarrow> int \<Rightarrow> int \<Rightarrow> int" where
  "inverse_mod_loop lm low hm high =
     (if low > 1
      then (let r = high div low
            in inverse_mod_loop (hm - lm * r) (high - low * r) lm low)
      else lm)"
  by pat_completeness auto
termination
proof (relation "measure (\<lambda>(lm, low, hm, high). nat low)")
  show "wf (measure (\<lambda>(lm, low, hm, high). nat low))" by simp
next
  fix lm low hm high r :: int
  assume "1 < low" and "r = high div low"
  then have "high - low * r = high mod low"
    by (simp add: minus_mult_div_eq_mod)
  moreover have "high mod low < low" using \<open>1 < low\<close> by simp
  moreover have "0 \<le> high mod low" using \<open>1 < low\<close> by simp
  ultimately show "((hm - lm * r, high - low * r, lm, low), (lm, low, hm, high))
      \<in> measure (\<lambda>(lm, low, hm, high). nat low)"
    using \<open>1 < low\<close> by simp
qed

declare inverse_mod_loop.simps [simp del]

text \<open>
  \<open>inverse_mod(a, m)\<close>. Python's \<open>a % m\<close> raises ZeroDivisionError for \<open>m = 0\<close>;
  for every other modulus it agrees with \<open>mod\<close> on \<open>int\<close> (the sign of the divisor).
\<close>

definition inverse_mod :: "int \<Rightarrow> int \<Rightarrow> py_error + int" where
  "inverse_mod a m =
     (if a = 0 then Inr 0
      else if m = 0 then Inl ZeroDivisionError
      else Inr (inverse_mod_loop 1 (a mod m) 0 m mod m))"

subsection \<open>jacobi\<close>

text \<open>
  The inner loop of \<open>jacobi\<close>:
  \<^verbatim>\<open>while a1 % 2 == 0: a1, e = a1 // 2, e + 1\<close>.
  It does not leave when \<open>a1 = 0\<close>, so it is a partial function.
\<close>

partial_function (option) strip_twos :: "int \<Rightarrow> int \<Rightarrow> (int \<times> int) option" where
  "strip_twos a1 e =
     (if a1 mod 2 = 0 then strip_twos (a1 div 2) (e + 1) else Some (a1, e))"

declare strip_twos.simps [code]

text \<open>
  \<open>jacobi(a, n)\<close>, recursive as in the source. \<open>None\<close> is a call that does not return;
  \<open>Some (Inl JacobiError)\<close> is the exception of the two guards.
\<close>

partial_function (option) jacobi :: "int \<Rightarrow> int \<Rightarrow> (py_error + int) option" where
  "jacobi a n =
     (if \<not> n \<ge> 3 then Some (Inl JacobiError)
      else if \<not> n mod 2 = 1 then Some (Inl JacobiError)
      else
        (let a = a mod n in
         if a = 0 then Some (Inr 0)
         else if a = 1 then Some (Inr 1)
         else
           strip_twos a 0 \<bind> (\<lambda>(a1, e).
             (let s = (if e mod 2 = 0 \<or> n mod 8 = 1 \<or> n mod 8 = 7 then 1 else - 1 :: int) in
              if a1 = 1 then Some (Inr s)
              else
                (let s = (if n mod 4 = 3 \<and> a1 mod 4 = 3 then - s else s) in
                 jacobi (n mod a1) a1 \<bind> (\<lambda>r.
                   case r of Inl err \<Rightarrow> Some (Inl err)
                           | Inr j \<Rightarrow> Some (Inr (s * j))))))))"

declare jacobi.simps [code]


section \<open>Bytes\<close>

type_synonym byte = "8 word"
type_synonym bytes = "byte list"

text \<open>\<open>int.to_bytes(n, "little")\<close> of a value that fits: byte \<open>i\<close> is \<open>v div 256 ^ i mod 256\<close>.\<close>

definition le_bytes :: "nat \<Rightarrow> nat \<Rightarrow> bytes" where
  "le_bytes n v = map (\<lambda>i. word_of_nat (v div 256 ^ i)) [0..<n]"

text \<open>\<open>int.from_bytes(b, byteorder="big")\<close>.\<close>

definition int_from_bytes_big :: "bytes \<Rightarrow> int" where
  "int_from_bytes_big b = foldl (\<lambda>acc x. acc * 256 + uint x) 0 b"

text \<open>\<open>v.to_bytes(n, byteorder="big")\<close>: OverflowError when \<open>v\<close> is negative or needs more than \<open>n\<close> bytes.\<close>

definition int_to_bytes_big :: "int \<Rightarrow> nat \<Rightarrow> py_error + bytes" where
  "int_to_bytes_big v n =
     (if v < 0 \<or> 256 ^ n \<le> v then Inl OverflowError
      else Inr (rev (le_bytes n (nat v))))"

text \<open>A bytes literal of ASCII characters, such as \<open>b"SessionKeys"\<close>.\<close>

definition ascii :: "string \<Rightarrow> bytes" where
  "ascii s = map (\<lambda>c. of_char c) s"

section \<open>SPAKE2+ (circuitmatter/pase.py)\<close>

subsection \<open>What pase.py imports\<close>

text \<open>
  The elliptic-curve library (\<open>ecdsa.ellipticcurve\<close>, \<open>ecdsa.curves.NIST256p\<close>) is imported
  by pase.py and is not part of the sources at hand. Its operations are parameters of the
  model: the curve's generator, order, \<open>baselen\<close> and cofactor, point addition (\<open>+\<close>),
  negation (unary \<open>-\<close>), multiplication of a point by an integer (\<open>*\<close> from either side),
  \<open>to_bytes("uncompressed")\<close>, which raises on the point at infinity (it has no
  coordinates to encode), and \<open>from_bytes\<close>, which raises on a malformed encoding.
\<close>

record 'p ec_lib =
  ec_generator :: 'p
  ec_order :: int
  ec_baselen :: nat
  ec_cofactor :: int
  point_add :: "'p \<Rightarrow> 'p \<Rightarrow> 'p"
  point_neg :: "'p \<Rightarrow> 'p"
  point_mul :: "int \<Rightarrow> 'p \<Rightarrow> 'p"
  to_bytes_uncompressed :: "'p \<Rightarrow> py_error + bytes"
  from_bytes :: "bytes \<Rightarrow> py_error + 'p"

text \<open>
  The module \<open>circuitmatter.crypto\<close> is not part of the sources at hand either. pase.py uses
  its functions \<open>Hash\<close>, \<open>HMAC\<close> and \<open>KDF(key, salt, info, length_in_bits)\<close> (the salt may be
  \<open>None\<close>), and its size constants; all are parameters here. \<open>pbkdf2_hmac_sha256\<close> is
  \<open>hashlib.pbkdf2_hmac("sha256", password, salt, iterations, dklen)\<close> and \<open>AESCCM\<close> the
  constructor \<open>AESCCM(key, tag_length=...)\<close> of the cryptography package; both may raise.
\<close>

record 'aead crypto =
  crypto_Hash :: "bytes \<Rightarrow> bytes"
  crypto_HMAC :: "bytes \<Rightarrow> bytes \<Rightarrow> bytes"
  crypto_KDF :: "bytes \<Rightarrow> bytes option \<Rightarrow> bytes \<Rightarrow> nat \<Rightarrow> bytes"
  HASH_LEN_BITS :: nat
  HASH_LEN_BYTES :: nat
  SYMMETRIC_KEY_LENGTH_BITS :: nat
  SYMMETRIC_KEY_LENGTH_BYTES :: nat
  AEAD_MIC_LENGTH_BYTES :: nat
  GROUP_SIZE_BYTES :: nat
  pbkdf2_hmac_sha256 :: "bytes \<Rightarrow> bytes \<Rightarrow> int \<Rightarrow> nat \<Rightarrow> py_error + bytes"
  AESCCM :: "bytes \<Rightarrow> nat \<Rightarrow> py_error + 'aead"

text \<open>\<open>crypto.W_SIZE_BYTES = crypto.GROUP_SIZE_BYTES + 8\<close>, assigned by pase.py itself.\<close>

definition W_SIZE_BYTES :: "'aead crypto \<Rightarrow> nat" where
  "W_SIZE_BYTES cr = GROUP_SIZE_BYTES cr + 8"

text \<open>The literals from which pase.py decodes the constant points \<open>M\<close> and \<open>N\<close>.\<close>

definition M_literal :: bytes where
  "M_literal =
    [0x02, 0x88, 0x6e, 0x2f, 0x97, 0xac, 0xe4, 0x6e, 0x55, 0xba, 0x9d, 0xd7, 0x24, 0x25, 0x79,
     0xf2, 0x99, 0x3b, 0x64, 0xe1, 0x6e, 0xf3, 0xdc, 0xab, 0x95, 0xaf, 0xd4, 0x97, 0x33, 0x3d,
     0x8f, 0xa1, 0x2f]"

definition N_literal :: bytes where
  "N_literal =
    [0x03, 0xd8, 0xbb, 0xd6, 0xc6, 0x39, 0xc6, 0x29, 0x37, 0xb0, 0x4d, 0x99, 0x7f, 0x38, 0xc3,
     0x77, 0x07, 0x19, 0xc6, 0x29, 0xd7, 0x01, 0x4d, 0x49, 0xa2, 0x4b, 0x4f, 0x98, 0xba, 0xa1,
     0x29, 0x2b, 0x49]"

text \<open>
  The module-level constants \<open>M = PointJacobi.from_bytes(NIST256p.curve, b"...")\<close> and \<open>N\<close>;
  an \<open>Inl\<close> is the exception with which the import of pase.py would fail.
\<close>

definition M :: "'p ec_lib \<Rightarrow> py_error + 'p" where
  "M lib = from_bytes lib M_literal"

definition N :: "'p ec_lib \<Rightarrow> py_error + 'p" where
  "N lib = from_bytes lib N_literal"

subsection \<open>Crypto\_Transcript\<close>

text \<open>
  \<open>struct.pack_into("<Q", buf, offset, v)\<close>: writes the 8 little-endian bytes of \<open>v\<close> at
  \<open>offset\<close>; struct.error when \<open>v\<close> does not fit 64 bits or the buffer is too short.
\<close>

definition pack_into_Q :: "bytes \<Rightarrow> nat \<Rightarrow> nat \<Rightarrow> py_error + bytes" where
  "pack_into_Q buf offset v =
     (if 2 ^ 64 \<le> v \<or> length buf < offset + 8 then Inl StructError
      else Inr (take offset buf @ le_bytes 8 v @ drop (offset + 8) buf))"

text \<open>
  The slice assignment \<open>buf[i:j] = e\<close> on a bytearray, for \<open>i \<le> j\<close>: the bytes from \<open>i\<close>
  up to \<open>j\<close> (both clipped to the length) are replaced by \<open>e\<close>.
\<close>

definition slice_assign :: "bytes \<Rightarrow> nat \<Rightarrow> nat \<Rightarrow> bytes \<Rightarrow> bytes" where
  "slice_assign buf i j e = take i buf @ e @ drop (max i j) buf"

text \<open>The first loop: \<open>for e in elements: total_length += len(e) + 8\<close>.\<close>

fun total_length_loop :: "bytes list \<Rightarrow> nat \<Rightarrow> nat" where
  "total_length_loop [] total_length = total_length"
| "total_length_loop (e # es) total_length = total_length_loop es (total_length + (length e + 8))"

text \<open>The second loop, on the buffer \<open>tt\<close> and the running \<open>offset\<close>.\<close>

fun fill_loop :: "bytes list \<Rightarrow> bytes \<Rightarrow> nat \<Rightarrow> py_error + bytes" where
  "fill_loop [] tt offset = Inr tt"
| "fill_loop (e # es) tt offset =
     (case pack_into_Q tt offset (length e) of
        Inl err \<Rightarrow> Inl err
      | Inr tt1 \<Rightarrow>
          (let offset1 = offset + 8;
               tt2 = slice_assign tt1 offset1 (offset1 + length e) e;
               offset2 = offset1 + length e
           in fill_loop es tt2 offset2))"

definition Crypto_Transcript ::
  "'p ec_lib \<Rightarrow> bytes \<Rightarrow> bytes \<Rightarrow> bytes \<Rightarrow> bytes \<Rightarrow> bytes \<Rightarrow> bytes \<Rightarrow> py_error + bytes" where
  "Crypto_Transcript lib context pA pB Z V w0 =
     (case M lib of Inl err \<Rightarrow> Inl err | Inr Mp \<Rightarrow>
       (case N lib of Inl err \<Rightarrow> Inl err | Inr Np \<Rightarrow>
         (case to_bytes_uncompressed lib Mp of Inl err \<Rightarrow> Inl err | Inr M_bytes \<Rightarrow>
           (case to_bytes_uncompressed lib Np of Inl err \<Rightarrow> Inl err | Inr N_bytes \<Rightarrow>
             (let elements = [context, [], [], M_bytes, N_bytes, pA, pB, Z, V, w0];
                  total_length = total_length_loop elements 0;
                  tt = replicate total_length 0
              in fill_loop elements tt 0)))))"

subsection \<open>Key derivation and confirmation\<close>

text \<open>\<open>KDF(salt, key, info)\<close> of pase.py, which reorders its arguments for \<open>crypto.KDF\<close>.\<close>

definition KDF :: "'aead crypto \<Rightarrow> bytes option \<Rightarrow> bytes \<Rightarrow> bytes \<Rightarrow> bytes" where
  "KDF cr salt key info = crypto_KDF cr key salt info (HASH_LEN_BITS cr)"

definition Crypto_P2 :: "'aead crypto \<Rightarrow> bytes \<Rightarrow> bytes \<Rightarrow> bytes \<Rightarrow> bytes \<times> bytes \<times> bytes" where
  "Crypto_P2 cr tt pA pB =
     (let KaKe = crypto_Hash cr tt;
          Ka = take (HASH_LEN_BYTES cr div 2) KaKe;
          Ke = drop (HASH_LEN_BYTES cr div 2) KaKe;
          KcAKcB = KDF cr None Ka (ascii ''ConfirmationKeys'');
          KcA = take (HASH_LEN_BYTES cr div 2) KcAKcB;
          KcB = drop (HASH_LEN_BYTES cr div 2) KcAKcB;
          cA = crypto_HMAC cr KcA pB;
          cB = crypto_HMAC cr KcB pA
      in (cA, cB, Ke))"

subsection \<open>Session keys\<close>

record 'aead secure_session_context =
  i2r_key :: bytes
  i2r :: "'aead option"
  r2i_key :: bytes
  r2i :: "'aead option"
  attestation_challenge :: bytes

text \<open>
  \<open>compute_session_keys\<close> assigns the attributes of the session context one after the other;
  an exception of a cipher constructor ends the call.
\<close>

definition compute_session_keys ::
  "'aead crypto \<Rightarrow> bytes \<Rightarrow> 'aead secure_session_context \<Rightarrow>
   py_error + 'aead secure_session_context" where
  "compute_session_keys cr Ke ctx =
     (let keys = crypto_KDF cr Ke (Some []) (ascii ''SessionKeys'')
                   (3 * SYMMETRIC_KEY_LENGTH_BITS cr);
          ctx = ctx\<lparr>i2r_key := take (SYMMETRIC_KEY_LENGTH_BYTES cr) keys\<rparr>
      in case AESCCM cr (i2r_key ctx) (AEAD_MIC_LENGTH_BYTES cr) of
           Inl err \<Rightarrow> Inl err
         | Inr c1 \<Rightarrow>
           (let ctx = ctx\<lparr>i2r := Some c1\<rparr>;
                ctx = ctx\<lparr>r2i_key :=
                        take (2 * SYMMETRIC_KEY_LENGTH_BYTES cr - SYMMETRIC_KEY_LENGTH_BYTES cr)
                          (drop (SYMMETRIC_KEY_LENGTH_BYTES cr) keys)\<rparr>
            in case AESCCM cr (r2i_key ctx) (AEAD_MIC_LENGTH_BYTES cr) of
                 Inl err \<Rightarrow> Inl err
               | Inr c2 \<Rightarrow>
                 (let ctx = ctx\<lparr>r2i := Some c2\<rparr>
                  in Inr (ctx\<lparr>attestation_challenge :=
                        take (3 * SYMMETRIC_KEY_LENGTH_BYTES cr - 2 * SYMMETRIC_KEY_LENGTH_BYTES cr)
                          (drop (2 * SYMMETRIC_KEY_LENGTH_BYTES cr) keys)\<rparr>))))"

subsection \<open>Passcode derivation\<close>

text \<open>\<open>struct.pack("<I", v)\<close>: struct.error unless \<open>0 \<le> v < 2 ^ 32\<close>.\<close>

definition struct_pack_I :: "int \<Rightarrow> py_error + bytes" where
  "struct_pack_I v =
     (if v < 0 \<or> 2 ^ 32 \<le> v then Inl StructError else Inr (le_bytes 4 (nat v)))"

text \<open>
  \<open>_pbkdf2(passcode, salt, iterations)\<close> of pase.py (an identifier cannot begin with an
  underscore here). \<open>%\<close> raises ZeroDivisionError for a zero order.
\<close>

definition pbkdf2 ::
  "'p ec_lib \<Rightarrow> 'aead crypto \<Rightarrow> int \<Rightarrow> bytes \<Rightarrow> int \<Rightarrow> py_error + (int \<times> int)" where
  "pbkdf2 lib cr passcode salt iterations =
     (case struct_pack_I passcode of Inl err \<Rightarrow> Inl err | Inr packed \<Rightarrow>
       (case pbkdf2_hmac_sha256 cr packed salt iterations (W_SIZE_BYTES cr * 2) of
          Inl err \<Rightarrow> Inl err
        | Inr ws \<Rightarrow>
            if ec_order lib = 0 then Inl ZeroDivisionError
            else
              (let w0 = int_from_bytes_big (take (W_SIZE_BYTES cr) ws) mod ec_order lib;
                   w1 = int_from_bytes_big (drop (W_SIZE_BYTES cr) ws) mod ec_order lib
               in Inr (w0, w1))))"

definition verifier_values ::
  "'p ec_lib \<Rightarrow> 'aead crypto \<Rightarrow> int \<Rightarrow> bytes \<Rightarrow> int \<Rightarrow> py_error + (bytes \<times> bytes)" where
  "verifier_values lib cr passcode salt iterations =
     (case pbkdf2 lib cr passcode salt iterations of Inl err \<Rightarrow> Inl err | Inr (w0, w1) \<Rightarrow>
        (let L = point_mul lib w1 (ec_generator lib)
         in case int_to_bytes_big w0 (ec_baselen lib) of
              Inl err \<Rightarrow> Inl err
            | Inr w0_bytes \<Rightarrow>
               (case to_bytes_uncompressed lib L of
                  Inl err \<Rightarrow> Inl err
                | Inr L_bytes \<Rightarrow> Inr (w0_bytes, L_bytes))))"

subsection \<open>The verifier's round\<close>

text \<open>
  \<open>Crypto_pB(random_source, w0, L)\<close>; the random source is its method \<open>randbelow\<close>, of
  which one value is drawn.
\<close>

definition Crypto_pB :: "'p ec_lib \<Rightarrow> (int \<Rightarrow> int) \<Rightarrow> int \<Rightarrow> 'p \<Rightarrow> py_error + (int \<times> 'p)" where
  "Crypto_pB lib randbelow w0 L =
     (case N lib of Inl err \<Rightarrow> Inl err | Inr Np \<Rightarrow>
        (let y = randbelow (ec_order lib);
             Y = point_add lib (point_mul lib y (ec_generator lib)) (point_mul lib w0 Np)
         in Inr (y, Y)))"

record pake2 =
  pake2_pB :: bytes
  pake2_cB :: bytes

text \<open>
  \<open>compute_verification(random_source, pake1, pake2, context, verifier)\<close>. Of \<open>pake1\<close> only
  the field \<open>pA\<close> is read; \<open>pake2\<close> is mutated and is returned with the result
  \<open>(cA, Ke)\<close>. In \<open>h * y * (...)\<close> the two integers are multiplied first. The arguments
  of \<open>Crypto_Transcript\<close> are evaluated in their order, so the encodings of \<open>Z\<close> and \<open>V\<close>
  may raise before that of \<open>w0\<close>.
\<close>

definition compute_verification ::
  "'p ec_lib \<Rightarrow> 'aead crypto \<Rightarrow> (int \<Rightarrow> int) \<Rightarrow> bytes \<Rightarrow> pake2 \<Rightarrow> bytes \<Rightarrow> bytes \<Rightarrow>
   py_error + ((bytes \<times> bytes) \<times> pake2)" where
  "compute_verification lib cr randbelow pake1_pA pake2 context verifier =
     (let w0 = take (GROUP_SIZE_BYTES cr) verifier;
          L = drop (GROUP_SIZE_BYTES cr) verifier
      in case from_bytes lib L of Inl err \<Rightarrow> Inl err | Inr L \<Rightarrow>
        (let w0 = int_from_bytes_big w0
         in case Crypto_pB lib randbelow w0 L of Inl err \<Rightarrow> Inl err | Inr (y, Y) \<Rightarrow>
           (case to_bytes_uncompressed lib Y of Inl err \<Rightarrow> Inl err | Inr Y_bytes \<Rightarrow>
             (let pake2 = pake2\<lparr>pake2_pB := Y_bytes\<rparr>;
                  h = ec_cofactor lib
              in case from_bytes lib pake1_pA of Inl err \<Rightarrow> Inl err | Inr X \<Rightarrow>
                (case M lib of Inl err \<Rightarrow> Inl err | Inr Mp \<Rightarrow>
                  (let Z = point_mul lib (h * y)
                             (point_add lib X (point_neg lib (point_mul lib w0 Mp)));
                       V = point_mul lib (h * y) L
                   in case to_bytes_uncompressed lib Z of Inl err \<Rightarrow> Inl err | Inr Z_bytes \<Rightarrow>
                     (case to_bytes_uncompressed lib V of Inl err \<Rightarrow> Inl err | Inr V_bytes \<Rightarrow>
                       (case int_to_bytes_big w0 (ec_baselen lib) of
                          Inl err \<Rightarrow> Inl err
                        | Inr w0_bytes \<Rightarrow>
                           (case Crypto_Transcript lib context pake1_pA (pake2_pB pake2)
                                   Z_bytes V_bytes w0_bytes of
                              Inl err \<Rightarrow> Inl err
                            | Inr tt \<Rightarrow>
                               (case Crypto_P2 cr tt pake1_pA (pake2_pB pake2) of
                                  (cA, cB, Ke) \<Rightarrow>
                                    Inr ((cA, Ke), pake2\<lparr>pake2_cB := cB\<rparr>)))))))))))"

subsection \<open>A small instance of the imported operations\<close>

text \<open>
  The imported operations instantiated for evaluation: the cyclic group of prime order
  251 written additively (a point is its discrete logarithm, the generator is 1, the
  point at infinity is 0), a two-byte point encoding that raises on the point at infinity,
  and byte-shuffling stand-ins for the hash functions with the output lengths of the real
  ones.
\<close>

definition toy_lib :: "int ec_lib" where
  "toy_lib =
     \<lparr> ec_generator = 1, ec_order = 251, ec_baselen = 1, ec_cofactor = 1,
       point_add = (\<lambda>P Q. (P + Q) mod 251),
       point_neg = (\<lambda>P. (- P) mod 251),
       point_mul = (\<lambda>k P. (k * P) mod 251),
       to_bytes_uncompressed =
         (\<lambda>P. if P = 0 then Inl AttributeError else Inr [4, word_of_int P]),
       from_bytes = (\<lambda>b. case b of
                        p # x # _ \<Rightarrow> if p = 2 \<or> p = 3 \<or> p = 4 then Inr (uint x mod 251)
                                     else Inl MalformedPointError
                      | _ \<Rightarrow> Inl MalformedPointError) \<rparr>"

definition toy_crypto :: "(bytes \<times> nat) crypto" where
  "toy_crypto =
     \<lparr> crypto_Hash = (\<lambda>m. take 32 (m @ replicate 32 0)),
       crypto_HMAC = (\<lambda>k m. take 32 (k @ m @ replicate 32 0)),
       crypto_KDF = (\<lambda>key salt info bits. take (bits div 8) (key @ info @ replicate (bits div 8) 0)),
       HASH_LEN_BITS = 256, HASH_LEN_BYTES = 32,
       SYMMETRIC_KEY_LENGTH_BITS = 128, SYMMETRIC_KEY_LENGTH_BYTES = 16,
       AEAD_MIC_LENGTH_BYTES = 16, GROUP_SIZE_BYTES = 1,
       pbkdf2_hmac_sha256 = (\<lambda>pw salt iterations dklen.
          if iterations < 1 then Inl ValueError
          else Inr (take dklen (pw @ salt @ replicate dklen 7))),
       AESCCM = (\<lambda>key tag. if length key \<in> {16, 24, 32} then Inr (key, tag) else Inl ValueError) \<rparr>"

section \<open>Primality testing (cm\_ecdsa/numbertheory.py)\<close>

text \<open>The table \<open>smallprimes\<close>: the primes up to 1229.\<close>

definition smallprimes :: "int list" where
  "smallprimes =
    [2, 3, 5, 7, 11, 13, 17, 19, 23, 29, 31, 37, 41, 43, 47, 53, 59, 61, 67, 71, 73, 79, 83,
     89, 97, 101, 103, 107, 109, 113, 127, 131, 137, 139, 149, 151, 157, 163, 167, 173, 179,
     181, 191, 193, 197, 199, 211, 223, 227, 229, 233, 239, 241, 251, 257, 263, 269, 271, 277,
     281, 283, 293, 307, 311, 313, 317, 331, 337, 347, 349, 353, 359, 367, 373, 379, 383, 389,
     397, 401, 409, 419, 421, 431, 433, 439, 443, 449, 457, 461, 463, 467, 479, 487, 491, 499,
     503, 509, 521, 523, 541, 547, 557, 563, 569, 571, 577, 587, 593, 599, 601, 607, 613, 617,
     619, 631, 641, 643, 647, 653, 659, 661, 673, 677, 683, 691, 701, 709, 719, 727, 733, 739,
     743, 751, 757, 761, 769, 773, 787, 797, 809, 811, 821, 823, 827, 829, 839, 853, 857, 859,
     863, 877, 881, 883, 887, 907, 911, 919, 929, 937, 941, 947, 953, 967, 971, 977, 983, 991,
     997, 1009, 1013, 1019, 1021, 1031, 1033, 1039, 1049, 1051, 1061, 1063, 1069, 1087, 1091,
     1093, 1097, 1103, 1109, 1117, 1123, 1129, 1151, 1153, 1163, 1171, 1181, 1187, 1193, 1201,
     1213, 1217, 1223, 1229]"

text \<open>\<open>n.bit_length()\<close>: the number of binary digits of \<open>|n|\<close>.\<close>

function bit_length :: "int \<Rightarrow> nat" where
  "bit_length n = (if n = 0 then 0 else 1 + bit_length (\<bar>n\<bar> div 2))"
  by pat_completeness auto
termination
  by (relation "measure (\<lambda>n. nat \<bar>n\<bar>)") auto

declare bit_length.simps [simp del]

text \<open>\<open>pow(a, e, m)\<close> for an exponent \<open>e \<ge> 0\<close> and a modulus \<open>m > 0\<close>.\<close>

definition pow_mod :: "int \<Rightarrow> int \<Rightarrow> int \<Rightarrow> int" where
  "pow_mod a e m = a ^ nat e mod m"

text \<open>
  The schedule of iteration counts (from Menezes et al., Table 4.4) and the loop that
  selects from it: \<^verbatim>\<open>for k, tt in (...): if n_bits < k: break; t = tt\<close>.
\<close>

definition mr_schedule :: "(nat \<times> nat) list" where
  "mr_schedule =
     [(100, 27), (150, 18), (200, 15), (250, 12), (300, 9), (350, 8), (400, 7), (450, 6),
      (550, 5), (650, 4), (850, 3), (1300, 2)]"

fun choose_t :: "(nat \<times> nat) list \<Rightarrow> nat \<Rightarrow> nat \<Rightarrow> nat" where
  "choose_t [] n_bits t = t"
| "choose_t ((k, tt) # rest) n_bits t = (if n_bits < k then t else choose_t rest n_bits tt)"

text \<open>
  \<^verbatim>\<open>while (r % 2) == 0: s = s + 1; r = r // 2\<close>, which does not leave for \<open>r = 0\<close>.
\<close>

partial_function (option) mr_decompose :: "int \<Rightarrow> int \<Rightarrow> (int \<times> int) option" where
  "mr_decompose s r =
     (if r mod 2 = 0 then mr_decompose (s + 1) (r div 2) else Some (s, r))"

declare mr_decompose.simps [code]

text \<open>
  \<open>random.choice(smallprimes)\<close>: the random source is the sequence \<open>draw\<close> of the indices
  it selects, one for each round \<open>i\<close>, each taken below the length of the table.
\<close>

definition random_choice :: "(nat \<Rightarrow> nat) \<Rightarrow> nat \<Rightarrow> int list \<Rightarrow> int" where
  "random_choice draw i xs = xs ! (draw i mod length xs)"

text \<open>
  The inner loop of a round,
  \<^verbatim>\<open>while j <= s - 1 and y != n - 1: y = pow(y, 2, n); if y == 1: return False; j = j + 1\<close>.
  \<open>None\<close> is the \<open>return False\<close> inside the loop, \<open>Some y\<close> the value with which it leaves.
\<close>

function mr_inner :: "int \<Rightarrow> int \<Rightarrow> int \<Rightarrow> int \<Rightarrow> int option" where
  "mr_inner n s j y =
     (if j \<le> s - 1 \<and> y \<noteq> n - 1
      then (let y = pow_mod y 2 n in if y = 1 then None else mr_inner n s (j + 1) y)
      else Some y)"
  by pat_completeness auto
termination
  by (relation "measure (\<lambda>(n, s, j, y). nat (s - j))") auto

declare mr_inner.simps [simp del]

text \<open>
  The rounds \<^verbatim>\<open>for i in range(t)\<close>, from round \<open>i\<close> on. The module's global counter
  \<open>miller_rabin_test_count\<close> is diagnostic only and is left out.
\<close>

function mr_loop :: "(nat \<Rightarrow> nat) \<Rightarrow> int \<Rightarrow> int \<Rightarrow> int \<Rightarrow> nat \<Rightarrow> nat \<Rightarrow> bool" where
  "mr_loop draw n s r t i =
     (if i < t
      then (let a = random_choice draw i smallprimes;
                y = pow_mod a r n
            in if y \<noteq> 1 \<and> y \<noteq> n - 1
               then (case mr_inner n s 1 y of
                       None \<Rightarrow> False
                     | Some y \<Rightarrow> if y \<noteq> n - 1 then False else mr_loop draw n s r t (i + 1))
               else mr_loop draw n s r t (i + 1))
      else True)"
  by pat_completeness auto
termination
  by (relation "measure (\<lambda>(draw, n, s, r, t, i). t - i)") auto

declare mr_loop.simps [simp del]

text \<open>
  What the name \<open>gcd\<close> is bound to in the module. numbertheory.py neither defines nor
  imports a \<open>gcd\<close> (its imports are \<open>sys\<close>, \<open>math\<close> and \<open>random\<close>), so the name is
  unbound and the call \<open>gcd(n, 2310)\<close> raises NameError.
\<close>

definition module_gcd :: "(int \<Rightarrow> int \<Rightarrow> int) option" where
  "module_gcd = None"

text \<open>
  \<open>is_prime(n)\<close>, with the look-up of the name \<open>gcd\<close> at the call in line 295. \<open>None\<close>
  is a call that does not return.
\<close>

definition is_prime :: "(nat \<Rightarrow> nat) \<Rightarrow> int \<Rightarrow> (py_error + bool) option" where
  "is_prime draw n =
     (if n \<le> last smallprimes
      then (if n \<in> set smallprimes then Some (Inr True) else Some (Inr False))
      else
        (case module_gcd of
           None \<Rightarrow> Some (Inl NameError)
         | Some gcd_fn \<Rightarrow>
             if gcd_fn n 2310 \<noteq> 1 then Some (Inr False)
             else
               (let t = 40;
                    n_bits = 1 + bit_length n
                in if \<not> (11 \<le> n_bits \<and> n_bits \<le> 16384) then Some (Inl AssertionError)
                   else
                     (let t = choose_t mr_schedule n_bits t
                      in mr_decompose 0 (n - 1) \<bind>
                           (\<lambda>(s, r). Some (Inr (mr_loop draw n s r t 0)))))))"

section \<open>Deterministic nonces (cm\_ecdsa/rfc6979.py)\<close>

text \<open>
  The argument \<open>hash_func\<close>: a constructor of hash objects, modelled by the digest size and
  block size of the objects and by the digest they compute of a message.
\<close>

record hash_func =
  digest_size :: nat
  block_size :: nat
  digest :: "bytes \<Rightarrow> bytes"

text \<open>
  \<open>hmac.new(key, msg, hash_func).digest()\<close> of the standard library, for a hash
  constructor of the caller's, which is HMAC as RFC 2104 defines it: a key longer than a
  block is hashed first, the key is padded with zeros to a block, and the digest is taken
  twice, over the key xor \<open>0x36\<close> followed by the message and over the key xor \<open>0x5c\<close>
  followed by the inner digest. The block is that of the hash object, but the library
  replaces a block size below 16 by its default of 64. Successive \<open>update\<close> calls
  concatenate the message.
\<close>

definition hmac_digest :: "hash_func \<Rightarrow> bytes \<Rightarrow> bytes \<Rightarrow> bytes" where
  "hmac_digest hf key msg =
     (let blocksize = (if block_size hf < 16 then 64 else block_size hf);
          key = (if blocksize < length key then digest hf key else key);
          key = key @ replicate (blocksize - length key) 0;
          inner = digest hf (map (\<lambda>b. b XOR 0x36) key @ msg)
      in digest hf (map (\<lambda>b. b XOR 0x5c) key @ inner))"

text \<open>
  \<open>number_to_string\<close> and \<open>number_to_string_crop\<close> are imported from the module \<open>util\<close>,
  which is not part of the sources at hand; they are parameters.
\<close>

record util =
  number_to_string :: "int \<Rightarrow> int \<Rightarrow> py_error + bytes"
  number_to_string_crop :: "int \<Rightarrow> int \<Rightarrow> py_error + bytes"

text \<open>\<open>bits2int\<close>: \<open>int(hexlify(data), 16)\<close> raises ValueError on empty data.\<close>

definition bits2int :: "bytes \<Rightarrow> nat \<Rightarrow> py_error + int" where
  "bits2int data qlen =
     (if data = [] then Inl ValueError
      else
        (let x = int_from_bytes_big data;
             l = length data * 8
         in if l > qlen then Inr (x div 2 ^ (l - qlen)) else Inr x))"

definition bits2octets :: "util \<Rightarrow> bytes \<Rightarrow> int \<Rightarrow> py_error + bytes" where
  "bits2octets ut data order =
     (case bits2int data (bit_length order) of
        Inl err \<Rightarrow> Inl err
      | Inr z1 \<Rightarrow>
          (let z2 = z1 - order;
               z2 = (if z2 < 0 then z1 else z2)
           in number_to_string_crop ut z2 order))"

text \<open>
  Step H2, \<^verbatim>\<open>while len(t) < rolen: v = hmac.new(k, v, hash_func).digest(); t += v\<close>, which
  does not leave when the digests are empty.
\<close>

partial_function (option) step_H2 ::
  "hash_func \<Rightarrow> nat \<Rightarrow> bytes \<Rightarrow> bytes \<Rightarrow> bytes \<Rightarrow> (bytes \<times> bytes) option" where
  "step_H2 hf rolen k v t =
     (if length t < rolen
      then (let v = hmac_digest hf k v in step_H2 hf rolen k v (t @ v))
      else Some (t, v))"

declare step_H2.simps [code]

text \<open>
  Step H, the loop \<^verbatim>\<open>while True\<close>, on the state \<open>k\<close>, \<open>v\<close> and the remaining
  \<open>retry_gen\<close>. \<open>None\<close> is a loop that does not return.
\<close>

partial_function (option) step_H ::
  "hash_func \<Rightarrow> int \<Rightarrow> nat \<Rightarrow> nat \<Rightarrow> bytes \<Rightarrow> bytes \<Rightarrow> int \<Rightarrow> (py_error + int) option" where
  "step_H hf order qlen rolen k v retry_gen =
     step_H2 hf rolen k v [] \<bind> (\<lambda>(t, v).
       case bits2int t qlen of
         Inl err \<Rightarrow> Some (Inl err)
       | Inr secret \<Rightarrow>
           if 1 \<le> secret \<and> secret < order
           then
             (if retry_gen \<le> 0 then Some (Inr secret)
              else
                (let retry_gen = retry_gen - 1;
                     k = hmac_digest hf k (v @ [0]);
                     v = hmac_digest hf k v
                 in step_H hf order qlen rolen k v retry_gen))
           else
             (let k = hmac_digest hf k (v @ [0]);
                  v = hmac_digest hf k v
              in step_H hf order qlen rolen k v retry_gen))"

declare step_H.simps [code]

text \<open>Steps B to G: the state \<open>(k, v)\<close> with which the loop of step H is entered.\<close>

definition generate_k_init ::
  "util \<Rightarrow> int \<Rightarrow> int \<Rightarrow> hash_func \<Rightarrow> bytes \<Rightarrow> bytes \<Rightarrow> py_error + (bytes \<times> bytes)" where
  "generate_k_init ut order secexp hf data extra_entropy =
     (let holen = digest_size hf
      in case number_to_string ut secexp order of Inl err \<Rightarrow> Inl err | Inr bx0 \<Rightarrow>
        (case bits2octets ut data order of Inl err \<Rightarrow> Inl err | Inr bx1 \<Rightarrow>
          (let bx = [bx0, bx1, extra_entropy];
               v = replicate holen 0x01;
               k = replicate holen 0x00;
               k = hmac_digest hf k (concat ((v @ [0x00]) # bx));
               v = hmac_digest hf k v;
               k = hmac_digest hf k (concat ((v @ [0x01]) # bx));
               v = hmac_digest hf k v
           in Inr (k, v))))"

definition generate_k ::
  "util \<Rightarrow> int \<Rightarrow> int \<Rightarrow> hash_func \<Rightarrow> bytes \<Rightarrow> int \<Rightarrow> bytes \<Rightarrow> (py_error + int) option" where
  "generate_k ut order secexp hf data retry_gen extra_entropy =
     (let qlen = bit_length order;
          rolen = (qlen + 7) div 8
      in case generate_k_init ut order secexp hf data extra_entropy of
           Inl err \<Rightarrow> Some (Inl err)
         | Inr (k, v) \<Rightarrow> step_H hf order qlen rolen k v retry_gen)"

text \<open>
  The candidate sequence of step H from a state \<open>(k, v)\<close>: candidate \<open>n\<close> is the value
  \<open>secret\<close> of round \<open>n\<close> of the loop, each round continuing from the reseeded state of the
  round before. \<open>None\<close> when the rounds up to \<open>n\<close> do not all produce a value.
\<close>

fun candidate :: "hash_func \<Rightarrow> nat \<Rightarrow> nat \<Rightarrow> bytes \<Rightarrow> bytes \<Rightarrow> nat \<Rightarrow> int option" where
  "candidate hf qlen rolen k v n =
     (case step_H2 hf rolen k v [] of
        None \<Rightarrow> None
      | Some (t, v1) \<Rightarrow>
          (case bits2int t qlen of
             Inl err \<Rightarrow> None
           | Inr secret \<Rightarrow>
               (case n of
                  0 \<Rightarrow> Some secret
                | Suc m \<Rightarrow>
                    (let k1 = hmac_digest hf k (v1 @ [0]);
                         v2 = hmac_digest hf k1 v1
                     in candidate hf qlen rolen k1 v2 m))))"

declare candidate.simps [simp del]

text \<open>How many of the candidates before index \<open>n\<close> are valid, that is in \<open>[1, order - 1]\<close>.\<close>

definition valid_before :: "hash_func \<Rightarrow> int \<Rightarrow> nat \<Rightarrow> nat \<Rightarrow> bytes \<Rightarrow> bytes \<Rightarrow> nat \<Rightarrow> nat" where
  "valid_before hf order qlen rolen k v n =
     length (filter (\<lambda>i. case candidate hf qlen rolen k v i of
                            None \<Rightarrow> False
                          | Some s \<Rightarrow> 1 \<le> s \<and> s < order) [0..<n])"

text \<open>
  Instances for evaluation: fixed-width big-endian conversions, a hash whose digest is
  the one byte that sums the message, and a hash with a constant one-byte digest.
\<close>

definition toy_util :: util where
  "toy_util =
     \<lparr> number_to_string = (\<lambda>num order. int_to_bytes_big num ((bit_length order + 7) div 8)),
       number_to_string_crop = (\<lambda>num order. int_to_bytes_big num ((bit_length order + 7) div 8)) \<rparr>"

definition sum_hash :: hash_func where
  "sum_hash = \<lparr> digest_size = 1, block_size = 64, digest = (\<lambda>m. [sum_list m]) \<rparr>"

definition const_hash :: hash_func where
  "const_hash = \<lparr> digest_size = 1, block_size = 64, digest = (\<lambda>m. [1]) \<rparr>"

section \<open>Modular square roots (cm\_ecdsa/numbertheory.py)\<close>

text \<open>
  Polynomials are lists of coefficients of increasing powers. The loop
  \<^verbatim>\<open>for i in range(2, len(polymod) + 1): poly[-i] = (poly[-i] - poly[-1] * polymod[-i]) % p\<close>
  of \<open>polynomial_reduce_mod\<close>, on the list of the values of \<open>i\<close>; the index \<open>-i\<close> is
  \<open>length - i\<close>.
\<close>

fun reduce_inner :: "int list \<Rightarrow> int list \<Rightarrow> int \<Rightarrow> nat list \<Rightarrow> int list" where
  "reduce_inner poly polymod p [] = poly"
| "reduce_inner poly polymod p (i # rest) =
     reduce_inner
       (poly[length poly - i :=
          (poly ! (length poly - i) - last poly * polymod ! (length polymod - i)) mod p])
       polymod p rest"

text \<open>
  The loop \<^verbatim>\<open>while len(poly) >= len(polymod)\<close>. \<open>poly[-1]\<close> raises IndexError on an
  empty list and \<open>%\<close> raises ZeroDivisionError for \<open>p = 0\<close>.
\<close>

function polynomial_reduce_loop :: "int list \<Rightarrow> int list \<Rightarrow> int \<Rightarrow> py_error + int list" where
  "polynomial_reduce_loop poly polymod p =
     (if length poly \<ge> length polymod
      then (if poly = [] then Inl IndexError
            else if last poly \<noteq> 0
            then (if p = 0 then Inl ZeroDivisionError
                  else polynomial_reduce_loop
                         (butlast (reduce_inner poly polymod p [2..<length polymod + 1]))
                         polymod p)
            else polynomial_reduce_loop (butlast poly) polymod p)
      else Inr poly)"
  by pat_completeness auto

lemma length_reduce_inner [simp]:
  "length (reduce_inner poly polymod p js) = length poly"
  by (induction js arbitrary: poly) simp_all

termination polynomial_reduce_loop
  by (relation "measure (\<lambda>(poly, polymod, p). length poly)") (auto simp add: less_Suc_eq_le [symmetric])

declare polynomial_reduce_loop.simps [simp del]

definition polynomial_reduce_mod :: "int list \<Rightarrow> int list \<Rightarrow> int \<Rightarrow> py_error + int list" where
  "polynomial_reduce_mod poly polymod p =
     (if polymod = [] then Inl IndexError
      else if \<not> last polymod = 1 then Inl AssertionError
      else if \<not> length polymod > 1 then Inl AssertionError
      else polynomial_reduce_loop poly polymod p)"

text \<open>
  \<open>polynomial_multiply_mod\<close>: the product list of \<open>len(m1) + len(m2) - 1\<close> zeros (none
  when that is negative), the two nested loops over the cross terms, and the reduction.
\<close>

definition polynomial_multiply_mod ::
  "int list \<Rightarrow> int list \<Rightarrow> int list \<Rightarrow> int \<Rightarrow> py_error + int list" where
  "polynomial_multiply_mod m1 m2 polymod p =
     (let prod = replicate (length m1 + length m2 - 1) 0
      in if m1 \<noteq> [] \<and> m2 \<noteq> [] \<and> p = 0 then Inl ZeroDivisionError
         else
           (let prod =
                  fold (\<lambda>i prod.
                          fold (\<lambda>j prod. prod[i + j := (prod ! (i + j) + m1 ! i * m2 ! j) mod p])
                            [0..<length m2] prod)
                    [0..<length m1] prod
            in polynomial_reduce_mod prod polymod p))"

text \<open>The loop \<^verbatim>\<open>while k > 1\<close> of \<open>polynomial_exp_mod\<close>.\<close>

function polynomial_exp_loop ::
  "int list \<Rightarrow> int \<Rightarrow> int list \<Rightarrow> int list \<Rightarrow> int \<Rightarrow> py_error + int list" where
  "polynomial_exp_loop G k s polymod p =
     (if k > 1
      then (let k = k div 2
            in case polynomial_multiply_mod G G polymod p of
                 Inl err \<Rightarrow> Inl err
               | Inr G \<Rightarrow>
                   if k mod 2 = 1
                   then (case polynomial_multiply_mod G s polymod p of
                           Inl err \<Rightarrow> Inl err
                         | Inr s \<Rightarrow> polynomial_exp_loop G k s polymod p)
                   else polynomial_exp_loop G k s polymod p)
      else Inr s)"
  by pat_completeness auto
termination
  by (relation "measure (\<lambda>(G, k, s, polymod, p). nat k)") auto

declare polynomial_exp_loop.simps [simp del]

definition polynomial_exp_mod ::
  "int list \<Rightarrow> int \<Rightarrow> int list \<Rightarrow> int \<Rightarrow> py_error + int list" where
  "polynomial_exp_mod base exponent polymod p =
     (if \<not> exponent < p then Inl AssertionError
      else if exponent = 0 then Inr [1]
      else
        (let G = base;
             k = exponent;
             s = (if k mod 2 = 1 then G else [1])
         in polynomial_exp_loop G k s polymod p))"

text \<open>
  The loop \<^verbatim>\<open>for b in range(2, range_top)\<close> of \<open>square_root_mod_prime\<close>, from \<open>b\<close> on,
  and the \<open>RuntimeError\<close> after it. \<open>ff[1]\<close> and \<open>ff[0]\<close> raise IndexError on a list that
  is too short.
\<close>

function square_root_search :: "int \<Rightarrow> int \<Rightarrow> int \<Rightarrow> (py_error + int) option" where
  "square_root_search a p b =
     (if b < p
      then jacobi (b * b - 4 * a) p \<bind> (\<lambda>j.
             case j of
               Inl err \<Rightarrow> Some (Inl err)
             | Inr jac \<Rightarrow>
                 if jac = - 1
                 then (let f = [a, - b, 1]
                       in case polynomial_exp_mod [0, 1] ((p + 1) div 2) f p of
                            Inl err \<Rightarrow> Some (Inl err)
                          | Inr ff \<Rightarrow>
                              if length ff < 2 then Some (Inl IndexError)
                              else if ff ! 1 \<noteq> 0 then Some (Inl SquareRootError)
                              else Some (Inr (ff ! 0)))
                 else square_root_search a p (b + 1))
      else Some (Inl RuntimeError))"
  by pat_completeness auto
termination
  by (relation "measure (\<lambda>(a, p, b). nat (p - b))") auto

declare square_root_search.simps [simp del]

definition square_root_mod_prime :: "int \<Rightarrow> int \<Rightarrow> (py_error + int) option" where
  "square_root_mod_prime a p =
     (if \<not> (0 \<le> a \<and> a < p) then Some (Inl AssertionError)
      else if \<not> 1 < p then Some (Inl AssertionError)
      else if a = 0 then Some (Inr 0)
      else if p = 2 then Some (Inr a)
      else
        jacobi a p \<bind> (\<lambda>j.
          case j of
            Inl err \<Rightarrow> Some (Inl err)
          | Inr jac \<Rightarrow>
              if jac = - 1 then Some (Inl SquareRootError)
              else if p mod 4 = 3 then Some (Inr (pow_mod a ((p + 1) div 4) p))
              else if p mod 8 = 5
              then (let d = pow_mod a ((p - 1) div 4) p
                    in if d = 1 then Some (Inr (pow_mod a ((p + 3) div 8) p))
                       else if \<not> d = p - 1 then Some (Inl AssertionError)
                       else Some (Inr ((2 * a * pow_mod (4 * a) ((p - 5) div 8) p) mod p)))
              else
                (let range_top = p
                 in square_root_search a range_top 2)))"

text \<open>
  Primality of the modulus, as a bounded test that evaluates: \<open>p > 1\<close> and no \<open>d\<close> from 2
  to \<open>p - 1\<close> divides \<open>p\<close>.
\<close>

definition prime_int :: "int \<Rightarrow> bool" where
  "prime_int p = (1 < p \<and> list_all (\<lambda>d. \<not> d dvd p) [2..p - 1])"

section \<open>Properties of inverse\_mod\<close>

lemma inverse_mod_loop_inv:
  "1 \<le> low \<Longrightarrow> low < high \<Longrightarrow> gcd low high = 1 \<Longrightarrow>
   (lm * a) mod m = low mod m \<Longrightarrow> (hm * a) mod m = high mod m \<Longrightarrow>
   (inverse_mod_loop lm low hm high * a) mod m = 1 mod m"
proof (induction lm low hm high rule: inverse_mod_loop.induct)
  case (1 lm low hm high)
  show ?case
  proof (cases "low > 1")
    case False
    with "1.prems" have "low = 1" by simp
    with "1.prems" show ?thesis by (simp add: inverse_mod_loop.simps)
  next
    case True
    define r where "r = high div low"
    have low': "high - low * r = high mod low"
      by (simp add: r_def minus_mult_div_eq_mod)
    have g: "gcd (high mod low) low = 1"
      using "1.prems"(3) by (metis gcd.commute gcd_red_int)
    have nz: "high mod low \<noteq> 0"
    proof
      assume "high mod low = 0"
      with g have "\<bar>low\<bar> = 1" by simp
      with True show False by simp
    qed
    have ge: "1 \<le> high mod low"
      using nz True pos_mod_sign [of low high] by linarith
    have lt: "high mod low < low" using True by simp
    have c1: "((hm - lm * r) * a) mod m = (high - low * r) mod m"
    proof -
      have "((hm - lm * r) * a) mod m = (hm * a - r * (lm * a)) mod m"
        by (simp add: algebra_simps)
      also have "\<dots> = (hm * a mod m - r * (lm * a mod m)) mod m"
        by (metis mod_diff_cong mod_mod_trivial mod_mult_right_eq)
      also have "\<dots> = (high mod m - r * (low mod m)) mod m"
        using "1.prems" by simp
      also have "\<dots> = (high - r * low) mod m"
        by (metis mod_diff_cong mod_mod_trivial mod_mult_right_eq)
      finally show ?thesis by (simp add: mult.commute)
    qed
    have "(inverse_mod_loop (hm - lm * r) (high - low * r) lm low * a) mod m = 1 mod m"
      using "1.IH" [OF True r_def] ge lt g c1 "1.prems"(4) low' by simp
    then show ?thesis
      using True by (subst inverse_mod_loop.simps) (simp add: r_def Let_def)
  qed
qed

text \<open>
  Claim C8. For every modulus \<open>m > 1\<close> and every \<open>a\<close> with \<open>0 < a < m\<close> and
  \<open>gcd a m = 1\<close>, \<open>inverse_mod a m\<close> returns a value \<open>v\<close> with \<open>0 \<le> v < m\<close> and
  \<open>v * a \<equiv> 1 (mod m)\<close>; and for \<open>a = 0\<close> it returns 0.
\<close>

theorem inverse_mod_correct:
  "(1 < m \<and> 0 < a \<and> a < m \<and> gcd a m = 1 \<longrightarrow>
      (\<exists>v. inverse_mod a m = Inr v \<and> 0 \<le> v \<and> v < m \<and> (v * a) mod m = 1))
   \<and> inverse_mod 0 m = Inr 0"
proof (intro conjI impI)
  assume h: "1 < m \<and> 0 < a \<and> a < m \<and> gcd a m = 1"
  let ?v = "inverse_mod_loop 1 (a mod m) 0 m mod m"
  have am: "a mod m = a" using h by simp
  have "(inverse_mod_loop 1 a 0 m * a) mod m = 1 mod m"
    by (rule inverse_mod_loop_inv) (use h in simp_all)
  then have "(?v * a) mod m = 1"
    using h am by (simp add: mod_mult_left_eq)
  moreover have "0 \<le> ?v" "?v < m" using h by simp_all
  moreover have "inverse_mod a m = Inr ?v" using h by (simp add: inverse_mod_def)
  ultimately show "\<exists>v. inverse_mod a m = Inr v \<and> 0 \<le> v \<and> v < m \<and> (v * a) mod m = 1"
    by blast
next
  show "inverse_mod 0 m = Inr 0" by (simp add: inverse_mod_def)
qed

theorem inverse_mod_correct_witness:
  "\<exists>v. inverse_mod 3 7 = Inr v \<and> 0 \<le> v \<and> v < 7 \<and> (v * 3) mod 7 = 1"
proof -
  have "gcd (3::int) 7 = 1" by code_simp
  with inverse_mod_correct [of 7 3] show ?thesis by simp
qed

section \<open>Termination and range of jacobi\<close>

lemma strip_twos_pos:
  "0 < a \<Longrightarrow> \<exists>a1 e'. strip_twos a e = Some (a1, e') \<and> a1 mod 2 = 1 \<and> 0 < a1 \<and> a1 \<le> a"
proof (induction "nat a" arbitrary: a e rule: less_induct)
  case less
  show ?case
  proof (cases "a mod 2 = 0")
    case False
    then have "a mod 2 = 1" by presburger
    with less.prems show ?thesis
      by (subst strip_twos.simps) simp
  next
    case True
    with less.prems have pos: "0 < a div 2" and lt: "a div 2 < a" by presburger+
    then have "nat (a div 2) < nat a" by simp
    from less.hyps [OF this pos, of "e + 1"]
    obtain a1 e' where "strip_twos (a div 2) (e + 1) = Some (a1, e')"
      "a1 mod 2 = 1" "0 < a1" "a1 \<le> a div 2" by blast
    with True lt show ?thesis
      by (subst strip_twos.simps) auto
  qed
qed

lemma jacobi_total:
  "3 \<le> n \<Longrightarrow> n mod 2 = 1 \<Longrightarrow> \<exists>r. jacobi a n = Some (Inr r) \<and> r \<in> {- 1, 0, 1}"
proof (induction "nat n" arbitrary: a n rule: less_induct)
  case less
  define b where "b = a mod n"
  have b: "0 \<le> b" "b < n" using less.prems by (simp_all add: b_def)
  show ?case
  proof (cases "b = 0 \<or> b = 1")
    case True
    then show ?thesis using less.prems
      by (subst jacobi.simps) (auto simp: b_def Let_def)
  next
    case False
    with b have "0 < b" by simp
    from strip_twos_pos [OF this, of 0]
    obtain a1 e where st: "strip_twos b 0 = Some (a1, e)" and odd: "a1 mod 2 = 1"
      and pos: "0 < a1" and le: "a1 \<le> b" by blast
    show ?thesis
    proof (cases "a1 = 1")
      case True
      with False st less.prems show ?thesis
        by (subst jacobi.simps) (simp add: b_def [symmetric] Let_def)
    next
      case a1: False
      with odd pos have ge3: "3 \<le> a1" by presburger
      have "nat a1 < nat n" using le b pos by simp
      from less.hyps [OF this ge3 odd, of "n mod a1"]
      obtain r where r: "jacobi (n mod a1) a1 = Some (Inr r)" "r \<in> {- 1, 0, 1}" by blast
      with False a1 st less.prems show ?thesis
        by (subst jacobi.simps) (auto simp add: b_def [symmetric] Let_def)
    qed
  qed
qed

text \<open>
  Claim C10. For every integer \<open>a\<close> and every odd \<open>n \<ge> 3\<close>, \<open>jacobi a n\<close> terminates and
  returns a value in \<open>{-1, 0, 1}\<close>. The recursion is well-founded: wherever the body
  reaches the recursive call \<open>jacobi (n mod a1) a1\<close>, its second argument \<open>a1\<close> (what
  the inner loop leaves of \<open>a mod n\<close>) is odd, at least 3 and strictly below \<open>n\<close>.
\<close>

theorem jacobi_terminates:
  "3 \<le> n \<Longrightarrow> n mod 2 = 1 \<Longrightarrow>
     (\<exists>r. jacobi a n = Some (Inr r) \<and> r \<in> {- 1, 0, 1}) \<and>
     (\<forall>a1 e. a mod n \<noteq> 0 \<and> a mod n \<noteq> 1 \<and> strip_twos (a mod n) 0 = Some (a1, e) \<and> a1 \<noteq> 1
        \<longrightarrow> 3 \<le> a1 \<and> a1 mod 2 = 1 \<and> a1 < n)"
proof -
  assume n: "3 \<le> n" "n mod 2 = 1"
  have A: "\<exists>r. jacobi a n = Some (Inr r) \<and> r \<in> {- 1, 0, 1}"
    using n by (rule jacobi_total)
  have B: "3 \<le> a1 \<and> a1 mod 2 = 1 \<and> a1 < n"
    if h: "a mod n \<noteq> 0 \<and> a mod n \<noteq> 1 \<and> strip_twos (a mod n) 0 = Some (a1, e) \<and> a1 \<noteq> 1"
    for a1 e
  proof -
    have "0 \<le> a mod n" "a mod n < n" using n by simp_all
    with h have b: "0 < a mod n" "a mod n < n" by simp_all
    from strip_twos_pos [OF b(1), of 0] h
    have o: "a1 mod 2 = 1" and p: "0 < a1" and l: "a1 \<le> a mod n" by auto
    from h have "a1 \<noteq> 1" by simp
    with o p have "3 \<le> a1" by presburger
    moreover from l b have "a1 < n" by simp
    ultimately show ?thesis using o by simp
  qed
  from A B show ?thesis by blast
qed

theorem jacobi_terminates_witness:
  "(\<exists>r. jacobi 5 21 = Some (Inr r) \<and> r \<in> {- 1, 0, 1}) \<and>
   strip_twos 20 0 = Some (5, 2) \<and> (3::int) \<le> 5 \<and> (5::int) mod 2 = 1 \<and> (5::int) < 21"
proof -
  have "strip_twos 20 0 = Some (5, 2)"
    by (simp add: strip_twos.simps)
  with jacobi_terminates [of 21 5] show ?thesis by simp
qed

section \<open>The transcript\<close>

lemma length_le_bytes [simp]: "length (le_bytes n v) = n"
  by (simp add: le_bytes_def)

lemma total_length_loop_sum:
  "total_length_loop es t = t + sum_list (map (\<lambda>e. 8 + length e) es)"
  by (induction es arbitrary: t) simp_all

lemma fill_loop_frames:
  "\<forall>e \<in> set es. length e < 2 ^ 64 \<Longrightarrow>
   fill_loop es (pre @ replicate (sum_list (map (\<lambda>e. 8 + length e) es)) 0) (length pre)
     = Inr (pre @ concat (map (\<lambda>e. le_bytes 8 (length e) @ e) es))"
proof (induction es arbitrary: pre)
  case Nil
  then show ?case by simp
next
  case (Cons e es)
  let ?rest = "sum_list (map (\<lambda>e. 8 + length e) es)"
  let ?tt = "pre @ replicate (8 + length e + ?rest) (0::byte)"
  have fit: "\<not> (2 ^ 64 \<le> length e)" using Cons.prems by simp
  have p: "pack_into_Q ?tt (length pre) (length e)
             = Inr (pre @ le_bytes 8 (length e) @ replicate (length e + ?rest) 0)"
    using fit by (simp add: pack_into_Q_def)
  let ?pre' = "pre @ le_bytes 8 (length e) @ e"
  have s: "slice_assign (pre @ le_bytes 8 (length e) @ replicate (length e + ?rest) 0)
             (length pre + 8) (length pre + 8 + length e) e = ?pre' @ replicate ?rest 0"
    by (simp add: slice_assign_def)
  have l: "length pre + 8 + length e = length ?pre'" by simp
  have ih: "fill_loop es (?pre' @ replicate ?rest 0) (length ?pre')
              = Inr (?pre' @ concat (map (\<lambda>e. le_bytes 8 (length e) @ e) es))"
    using Cons.prems by (intro Cons.IH) simp
  show ?case
    using p s ih by (simp add: Let_def add.assoc del: append_assoc) 
qed

lemma length_concat_frames:
  "length (concat (map (\<lambda>e. le_bytes 8 (length e) @ e) es)) = sum_list (map (\<lambda>e. 8 + length e) es)"
  by (induction es) simp_all

lemma Crypto_Transcript_frames:
  assumes "M lib = Inr Mp" and "N lib = Inr Np"
    and "to_bytes_uncompressed lib Mp = Inr M_bytes"
    and "to_bytes_uncompressed lib Np = Inr N_bytes"
    and "elements = [context, [], [], M_bytes, N_bytes, pA, pB, Z, V, w0]"
    and "\<forall>e \<in> set elements. length e < 2 ^ 64"
  shows "\<exists>tt. Crypto_Transcript lib context pA pB Z V w0 = Inr tt
            \<and> tt = concat (map (\<lambda>e. le_bytes 8 (length e) @ e) elements)
            \<and> length tt = sum_list (map (\<lambda>e. 8 + length e) elements)"
proof -
  have "fill_loop elements (replicate (total_length_loop elements 0) 0) 0
          = Inr (concat (map (\<lambda>e. le_bytes 8 (length e) @ e) elements))"
    using fill_loop_frames [OF assms(6), of "[]"] by (simp add: total_length_loop_sum)
  moreover have "Crypto_Transcript lib context pA pB Z V w0
          = fill_loop elements (replicate (total_length_loop elements 0) 0) 0"
    by (simp add: Crypto_Transcript_def assms(1,2,3,4) assms(5) [symmetric] Let_def)
  ultimately show ?thesis
    using length_concat_frames [of elements] by simp
qed

text \<open>
  Claim C1. With the constants \<open>M\<close> and \<open>N\<close> decoded and encoded (neither is the point
  at infinity), the transcript assembled by \<open>Crypto_Transcript\<close> is exactly the
  concatenation, in this order, of the elements
  \<open>[context, empty, empty, encoded M, encoded N, pA, pB, Z, V, w0]\<close>, each preceded by its
  length as an 8-byte little-endian integer, and nothing else; its length is the sum of
  \<open>8 + length e\<close> over the elements. The lengths are those of byte strings that exist:
  below \<open>2 ^ 64\<close>.
\<close>

theorem Crypto_Transcript_layout:
  assumes "M lib = Inr Mp" and "N lib = Inr Np"
    and "to_bytes_uncompressed lib Mp = Inr M_bytes"
    and "to_bytes_uncompressed lib Np = Inr N_bytes"
    and "elements = [context, [], [], M_bytes, N_bytes, pA, pB, Z, V, w0]"
    and "\<forall>e \<in> set elements. length e < 2 ^ 64"
  shows "\<exists>tt. Crypto_Transcript lib context pA pB Z V w0 = Inr tt
            \<and> tt = concat (map (\<lambda>e. le_bytes 8 (length e) @ e) elements)
            \<and> length tt = sum_list (map (\<lambda>e. 8 + length e) elements)"
  using assms by (rule Crypto_Transcript_frames)

lemma toy_M: "M toy_lib = Inr 136"
  by (simp add: M_def toy_lib_def M_literal_def)

lemma toy_N: "N toy_lib = Inr 216"
  by (simp add: N_def toy_lib_def N_literal_def)

lemma toy_M_bytes: "to_bytes_uncompressed toy_lib 136 = Inr [4, 136]"
  by (simp add: toy_lib_def)

lemma toy_N_bytes: "to_bytes_uncompressed toy_lib 216 = Inr [4, 216]"
  by (simp add: toy_lib_def)

theorem Crypto_Transcript_layout_witness:
  "Crypto_Transcript toy_lib [1, 2] [4, 9] [] [4, 7] [4, 8] [5]
     = Inr ([2, 0, 0, 0, 0, 0, 0, 0, 1, 2] @ [0, 0, 0, 0, 0, 0, 0, 0] @ [0, 0, 0, 0, 0, 0, 0, 0]
          @ [2, 0, 0, 0, 0, 0, 0, 0, 4, 136] @ [2, 0, 0, 0, 0, 0, 0, 0, 4, 216]
          @ [2, 0, 0, 0, 0, 0, 0, 0, 4, 9] @ [0, 0, 0, 0, 0, 0, 0, 0]
          @ [2, 0, 0, 0, 0, 0, 0, 0, 4, 7] @ [2, 0, 0, 0, 0, 0, 0, 0, 4, 8]
          @ [1, 0, 0, 0, 0, 0, 0, 0, 5])"
  using Crypto_Transcript_layout [OF toy_M toy_N toy_M_bytes toy_N_bytes refl,
      of "[1, 2]" "[4, 9]" "[]" "[4, 7]" "[4, 8]" "[5]"]
  by (simp add: le_bytes_def upt_rec)

section \<open>Key derivation, confirmation and session keys\<close>

text \<open>
  Claim C3. For every transcript \<open>tt\<close> and shares \<open>pA\<close>, \<open>pB\<close>, \<open>Crypto_P2\<close> computes
  \<open>Ka || Ke = Hash tt\<close> split at the midpoint, then \<open>KcA || KcB\<close> as the KDF of key \<open>Ka\<close>
  with no salt (the code passes \<open>None\<close>), info \<open>"ConfirmationKeys"\<close> and the hash length in
  bits, split at the midpoint, and returns \<open>cA = HMAC KcA pB\<close>, \<open>cB = HMAC KcB pA\<close> and
  \<open>Ke\<close>. The hypotheses are the output lengths of the imported hash and KDF.
\<close>

theorem Crypto_P2_derivation:
  assumes "length (crypto_Hash cr tt) = HASH_LEN_BYTES cr"
    and "\<forall>key salt info bits. length (crypto_KDF cr key salt info bits) = bits div 8"
    and "HASH_LEN_BITS cr = 8 * HASH_LEN_BYTES cr"
  shows "\<exists>Ka Ke KcA KcB.
           crypto_Hash cr tt = Ka @ Ke \<and> length Ka = length (crypto_Hash cr tt) div 2 \<and>
           crypto_KDF cr Ka None (ascii ''ConfirmationKeys'') (HASH_LEN_BITS cr) = KcA @ KcB \<and>
           length KcA = length (KcA @ KcB) div 2 \<and>
           length (KcA @ KcB) = HASH_LEN_BYTES cr \<and>
           Crypto_P2 cr tt pA pB = (crypto_HMAC cr KcA pB, crypto_HMAC cr KcB pA, Ke)"
proof -
  let ?h = "HASH_LEN_BYTES cr div 2"
  let ?KaKe = "crypto_Hash cr tt"
  let ?K = "crypto_KDF cr (take ?h ?KaKe) None (ascii ''ConfirmationKeys'') (HASH_LEN_BITS cr)"
  have lk: "length ?K = HASH_LEN_BYTES cr" using assms(2,3) by simp
  have 1: "?KaKe = take ?h ?KaKe @ drop ?h ?KaKe" by simp
  have 2: "length (take ?h ?KaKe) = length ?KaKe div 2" using assms(1) by simp
  have 3: "?K = take ?h ?K @ drop ?h ?K" by simp
  have 4: "length (take ?h ?K) = length (take ?h ?K @ drop ?h ?K) div 2" using lk by simp
  have 5: "length (take ?h ?K @ drop ?h ?K) = HASH_LEN_BYTES cr" using lk by simp
  have 6: "Crypto_P2 cr tt pA pB
     = (crypto_HMAC cr (take ?h ?K) pB, crypto_HMAC cr (drop ?h ?K) pA, drop ?h ?KaKe)"
    by (simp add: Crypto_P2_def KDF_def Let_def)
  from 1 2 3 4 5 6 show ?thesis by blast
qed

theorem Crypto_P2_derivation_witness:
  "\<exists>Ka Ke KcA KcB.
     crypto_Hash toy_crypto [1, 2, 3] = Ka @ Ke \<and>
     length Ka = length (crypto_Hash toy_crypto [1, 2, 3]) div 2 \<and>
     crypto_KDF toy_crypto Ka None (ascii ''ConfirmationKeys'') (HASH_LEN_BITS toy_crypto) = KcA @ KcB \<and>
     length KcA = length (KcA @ KcB) div 2 \<and>
     length (KcA @ KcB) = HASH_LEN_BYTES toy_crypto \<and>
     Crypto_P2 toy_crypto [1, 2, 3] [4] [5]
       = (crypto_HMAC toy_crypto KcA [5], crypto_HMAC toy_crypto KcB [4], Ke)"
  by (rule Crypto_P2_derivation) (auto simp add: toy_crypto_def)

text \<open>
  Claim C5. For every \<open>Ke\<close>, \<open>compute_session_keys\<close> derives the KDF of \<open>Ke\<close> with the
  empty salt, info \<open>"SessionKeys"\<close> and three times the symmetric key length in bits, and
  splits the output, in order, into the initiator-to-responder key, the
  responder-to-initiator key and the attestation challenge: three consecutive, disjoint
  pieces of the key length each, which together are the whole output. The hypotheses are
  the output length of the imported KDF and that the cipher constructor accepts a key of
  the symmetric key length.
\<close>

theorem compute_session_keys_slices:
  assumes "\<forall>key salt info bits. length (crypto_KDF cr key salt info bits) = bits div 8"
    and "SYMMETRIC_KEY_LENGTH_BITS cr = 8 * SYMMETRIC_KEY_LENGTH_BYTES cr"
    and "\<forall>key. length key = SYMMETRIC_KEY_LENGTH_BYTES cr \<longrightarrow>
           (\<exists>c. AESCCM cr key (AEAD_MIC_LENGTH_BYTES cr) = Inr c)"
  shows "\<exists>ctx'. compute_session_keys cr Ke ctx = Inr ctx' \<and>
           i2r_key ctx' @ r2i_key ctx' @ attestation_challenge ctx'
             = crypto_KDF cr Ke (Some []) (ascii ''SessionKeys'') (3 * SYMMETRIC_KEY_LENGTH_BITS cr) \<and>
           length (i2r_key ctx') = SYMMETRIC_KEY_LENGTH_BYTES cr \<and>
           length (r2i_key ctx') = SYMMETRIC_KEY_LENGTH_BYTES cr \<and>
           length (attestation_challenge ctx') = SYMMETRIC_KEY_LENGTH_BYTES cr"
proof -
  let ?K = "SYMMETRIC_KEY_LENGTH_BYTES cr"
  let ?keys = "crypto_KDF cr Ke (Some []) (ascii ''SessionKeys'') (3 * SYMMETRIC_KEY_LENGTH_BITS cr)"
  let ?k1 = "take ?K ?keys"
  let ?k2 = "take (2 * ?K - ?K) (drop ?K ?keys)"
  let ?k3 = "take (3 * ?K - 2 * ?K) (drop (2 * ?K) ?keys)"
  have len: "length ?keys = 3 * ?K" using assms(1,2) by simp
  have l1: "length ?k1 = ?K" and l2: "length ?k2 = ?K" and l3: "length ?k3 = ?K"
    using len by simp_all
  from assms(3) l1 obtain c1 where c1: "AESCCM cr ?k1 (AEAD_MIC_LENGTH_BYTES cr) = Inr c1" by blast
  from assms(3) l2 obtain c2 where c2: "AESCCM cr ?k2 (AEAD_MIC_LENGTH_BYTES cr) = Inr c2" by blast
  let ?ctx' = "ctx\<lparr>i2r_key := ?k1, i2r := Some c1, r2i_key := ?k2, r2i := Some c2,
                     attestation_challenge := ?k3\<rparr>"
  have r: "compute_session_keys cr Ke ctx = Inr ?ctx'"
    using c1 c2 by (simp add: compute_session_keys_def Let_def)
  have "?k2 = take ?K (drop ?K ?keys)" by simp
  moreover have "?k3 = drop (2 * ?K) ?keys" using len by simp
  moreover have "drop (2 * ?K) ?keys = drop ?K (drop ?K ?keys)" by (simp add: mult_2)
  ultimately have cat: "?k1 @ ?k2 @ ?k3 = ?keys"
    by (metis append_take_drop_id)
  show ?thesis
    using r cat l1 l2 l3 by (intro exI [of _ ?ctx']) simp
qed

theorem compute_session_keys_slices_witness:
  "\<exists>ctx'. compute_session_keys toy_crypto [9, 8, 7]
            \<lparr>i2r_key = [], i2r = None, r2i_key = [], r2i = None, attestation_challenge = []\<rparr>
              = Inr ctx' \<and>
           i2r_key ctx' @ r2i_key ctx' @ attestation_challenge ctx'
             = crypto_KDF toy_crypto [9, 8, 7] (Some []) (ascii ''SessionKeys'')
                 (3 * SYMMETRIC_KEY_LENGTH_BITS toy_crypto) \<and>
           length (i2r_key ctx') = SYMMETRIC_KEY_LENGTH_BYTES toy_crypto \<and>
           length (r2i_key ctx') = SYMMETRIC_KEY_LENGTH_BYTES toy_crypto \<and>
           length (attestation_challenge ctx') = SYMMETRIC_KEY_LENGTH_BYTES toy_crypto"
  by (rule compute_session_keys_slices) (auto simp add: toy_crypto_def)

section \<open>Passcode derivation\<close>

text \<open>
  Claim C4. For a passcode that has a 4-byte encoding, a salt and an iteration count for
  which PBKDF2-HMAC-SHA256 returns its \<open>2 * (group size + 8)\<close> bytes, \<open>w0\<close> and \<open>w1\<close> are
  the two halves of that output (the password being the 4-byte little-endian passcode),
  each read as a big-endian integer and reduced modulo the curve order, and the verifier
  stores \<open>w0\<close> with the encoding of the point \<open>L = w1 * Generator\<close>. The curve order is
  positive and fits \<open>baselen\<close> bytes, and \<open>L\<close> has an encoding (it is not the point at
  infinity).
\<close>

theorem verifier_values_derivation:
  assumes "0 \<le> passcode" and "passcode < 2 ^ 32"
    and "pbkdf2_hmac_sha256 cr (le_bytes 4 (nat passcode)) salt iterations
           (2 * (GROUP_SIZE_BYTES cr + 8)) = Inr ws"
    and "length ws = 2 * (GROUP_SIZE_BYTES cr + 8)"
    and "0 < ec_order lib" and "ec_order lib \<le> 256 ^ ec_baselen lib"
    and "to_bytes_uncompressed lib
           (point_mul lib (int_from_bytes_big (drop (GROUP_SIZE_BYTES cr + 8) ws) mod ec_order lib)
              (ec_generator lib)) = Inr L_bytes"
  shows "\<exists>h0 h1 w0 w1 w0_bytes.
           ws = h0 @ h1 \<and> length h0 = GROUP_SIZE_BYTES cr + 8 \<and> length h1 = GROUP_SIZE_BYTES cr + 8 \<and>
           w0 = int_from_bytes_big h0 mod ec_order lib \<and>
           w1 = int_from_bytes_big h1 mod ec_order lib \<and>
           pbkdf2 lib cr passcode salt iterations = Inr (w0, w1) \<and>
           int_to_bytes_big w0 (ec_baselen lib) = Inr w0_bytes \<and>
           to_bytes_uncompressed lib (point_mul lib w1 (ec_generator lib)) = Inr L_bytes \<and>
           verifier_values lib cr passcode salt iterations = Inr (w0_bytes, L_bytes)"
proof -
  let ?W = "GROUP_SIZE_BYTES cr + 8"
  let ?h0 = "take ?W ws" and ?h1 = "drop ?W ws"
  let ?w0 = "int_from_bytes_big ?h0 mod ec_order lib"
  let ?w1 = "int_from_bytes_big ?h1 mod ec_order lib"
  have pk: "struct_pack_I passcode = Inr (le_bytes 4 (nat passcode))"
    using assms(1,2) by (simp add: struct_pack_I_def)
  have p: "pbkdf2 lib cr passcode salt iterations = Inr (?w0, ?w1)"
    using pk assms(3,5) by (simp add: pbkdf2_def W_SIZE_BYTES_def mult.commute Let_def)
  have r: "0 \<le> ?w0" "?w0 < 256 ^ ec_baselen lib"
    using assms(5,6) pos_mod_bound [of "ec_order lib" "int_from_bytes_big ?h0"]
    by (simp, linarith)
  then have b: "int_to_bytes_big ?w0 (ec_baselen lib) = Inr (rev (le_bytes (ec_baselen lib) (nat ?w0)))"
    by (simp add: int_to_bytes_big_def)
  have v: "verifier_values lib cr passcode salt iterations
     = Inr (rev (le_bytes (ec_baselen lib) (nat ?w0)), L_bytes)"
    using p b assms(7) by (simp add: verifier_values_def Let_def)
  have "ws = ?h0 @ ?h1" "length ?h0 = ?W" "length ?h1 = ?W" using assms(4) by simp_all
  with p b v assms(7) show ?thesis by blast
qed

theorem verifier_values_derivation_witness:
  "\<exists>h0 h1 w0 w1 w0_bytes.
     [21, 0, 0, 0, 5, 6, 7, 7, 7, 7, 7, 7, 7, 7, 7, 7, 7, 7] = h0 @ h1 \<and>
     length h0 = GROUP_SIZE_BYTES toy_crypto + 8 \<and> length h1 = GROUP_SIZE_BYTES toy_crypto + 8 \<and>
     w0 = int_from_bytes_big h0 mod ec_order toy_lib \<and>
     w1 = int_from_bytes_big h1 mod ec_order toy_lib \<and>
     pbkdf2 toy_lib toy_crypto 21 [5, 6] 1000 = Inr (w0, w1) \<and>
     int_to_bytes_big w0 (ec_baselen toy_lib) = Inr w0_bytes \<and>
     to_bytes_uncompressed toy_lib (point_mul toy_lib w1 (ec_generator toy_lib)) = Inr [4, 100] \<and>
     verifier_values toy_lib toy_crypto 21 [5, 6] 1000 = Inr (w0_bytes, [4, 100])"
proof (rule verifier_values_derivation)
  have "le_bytes 4 21 = [21, 0, 0, 0]"
    by (simp add: le_bytes_def upt_rec)
  moreover have "replicate 18 (7::byte) = [7, 7, 7, 7, 7, 7, 7, 7, 7, 7, 7, 7, 7, 7, 7, 7, 7, 7]"
    by (simp add: numeral_eq_Suc)
  ultimately show "pbkdf2_hmac_sha256 toy_crypto (le_bytes 4 (nat 21)) [5, 6] 1000
          (2 * (GROUP_SIZE_BYTES toy_crypto + 8))
        = Inr [21, 0, 0, 0, 5, 6, 7, 7, 7, 7, 7, 7, 7, 7, 7, 7, 7, 7]"
    by (simp add: toy_crypto_def)
next
  show "to_bytes_uncompressed toy_lib
          (point_mul toy_lib
             (int_from_bytes_big
                (drop (GROUP_SIZE_BYTES toy_crypto + 8)
                   [21, 0, 0, 0, 5, 6, 7, 7, 7, 7, 7, 7, 7, 7, 7, 7, 7, 7]) mod ec_order toy_lib)
             (ec_generator toy_lib)) = Inr [4, 100]"
    by (simp add: toy_crypto_def toy_lib_def int_from_bytes_big_def)
qed (simp_all add: toy_crypto_def toy_lib_def)

section \<open>The verifier's round\<close>



text \<open>
  When the random source draws \<open>y = 0\<close>, \<open>Z\<close> is the point at infinity and the call raises
  where \<open>Z\<close> is encoded.
\<close>

lemma compute_verification_infinity_raises:
  "compute_verification toy_lib toy_crypto (\<lambda>n. 0) [4, 9] \<lparr>pake2_pB = [], pake2_cB = []\<rparr>
     [1, 2] [3, 4, 20] = Inl AttributeError"
  by (simp add: compute_verification_def Crypto_pB_def N_def M_def N_literal_def M_literal_def
        toy_lib_def toy_crypto_def int_from_bytes_big_def Let_def)

section \<open>Primality testing\<close>

lemma last_smallprimes: "last smallprimes = 1229"
  by (simp add: smallprimes_def)

text \<open>
  Claim C9. The claim is that for every \<open>n\<close> above the largest entry of the small-prime
  table \<open>is_prime\<close> trial-divides and then runs Miller--Rabin. The code does not get
  there: for every such \<open>n\<close> the call \<open>gcd(n, 2310)\<close> finds the name \<open>gcd\<close> unbound and
  \<open>is_prime\<close> raises NameError, whatever the random source draws.
\<close>

theorem is_prime_raises_NameError:
  "last smallprimes < n \<Longrightarrow> is_prime draw n = Some (Inl NameError)"
  by (simp add: is_prime_def module_gcd_def)

theorem is_prime_raises_NameError_witness:
  "is_prime (\<lambda>i. 0) 1231 = Some (Inl NameError)"
  using is_prime_raises_NameError [of 1231 "\<lambda>i. 0"] by (simp add: last_smallprimes)

section \<open>Deterministic nonces\<close>

lemma step_H_range_aux:
  assumes "step_H hf order qlen rolen k v retry_gen = Some y"
  shows "\<forall>s. y = Inr s \<longrightarrow> 1 \<le> s \<and> s < order"
proof (rule step_H.raw_induct [where P = "\<lambda>hf order qlen rolen k v retry_gen y.
          \<forall>s. y = Inr s \<longrightarrow> 1 \<le> s \<and> s < order", OF _ assms])
  fix f :: "hash_func \<Rightarrow> int \<Rightarrow> nat \<Rightarrow> nat \<Rightarrow> bytes \<Rightarrow> bytes \<Rightarrow> int \<Rightarrow> (py_error + int) option"
  fix hf order qlen rolen k v retry_gen y
  assume IH: "\<And>hf order qlen rolen k v retry_gen y.
      f hf order qlen rolen k v retry_gen = Some y \<Longrightarrow> \<forall>s. y = Inr s \<longrightarrow> 1 \<le> s \<and> s < order"
  assume body: "step_H2 hf rolen k v [] \<bind>
     (\<lambda>(t, v).
         case bits2int t qlen of Inl err \<Rightarrow> Some (Inl err)
         | Inr secret \<Rightarrow>
             if 1 \<le> secret \<and> secret < order
             then if retry_gen \<le> 0 then Some (Inr secret)
                  else let retry_gen = retry_gen - 1;
                           k = hmac_digest hf k (v @ [0]);
                           v = hmac_digest hf k v
                       in f hf order qlen rolen k v retry_gen
             else let k = hmac_digest hf k (v @ [0]); v = hmac_digest hf k v
                  in f hf order qlen rolen k v retry_gen) =
     Some y"
  show "\<forall>s. y = Inr s \<longrightarrow> 1 \<le> s \<and> s < order"
  proof (intro allI impI)
    fix s assume y: "y = Inr s"
    from body obtain t v1 where h: "step_H2 hf rolen k v [] = Some (t, v1)"
      and r: "(case bits2int t qlen of Inl err \<Rightarrow> Some (Inl err)
         | Inr secret \<Rightarrow>
             if 1 \<le> secret \<and> secret < order
             then if retry_gen \<le> 0 then Some (Inr secret)
                  else let retry_gen = retry_gen - 1;
                           k = hmac_digest hf k (v1 @ [0]);
                           v = hmac_digest hf k v1
                       in f hf order qlen rolen k v retry_gen
             else let k = hmac_digest hf k (v1 @ [0]); v = hmac_digest hf k v1
                  in f hf order qlen rolen k v retry_gen) = Some y"
      by (auto split: Option.bind_splits)
    show "1 \<le> s \<and> s < order"
    proof (cases "bits2int t qlen")
      case (Inl e)
      with r y show ?thesis by simp
    next
      case (Inr secret)
      show ?thesis
      proof (cases "1 \<le> secret \<and> secret < order")
        case True
        show ?thesis
        proof (cases "retry_gen \<le> 0")
          case le: True
          with r Inr True y show ?thesis by simp
        next
          case False
          with r Inr True y IH show ?thesis by (simp add: Let_def)
        qed
      next
        case False
        then have "f hf order qlen rolen (hmac_digest hf k (v1 @ [0]))
                         (hmac_digest hf (hmac_digest hf k (v1 @ [0])) v1) retry_gen = Some y"
          using r Inr by (simp only: sum.case if_False Let_def)
        with IH y show ?thesis by blast
      qed
    qed
  qed
qed

lemma step_H_range:
  "step_H hf order qlen rolen k v retry_gen = Some (Inr s) \<Longrightarrow> 1 \<le> s \<and> s < order"
  using step_H_range_aux by blast

lemma step_H_unfold:
  "step_H2 hf rolen k v [] = Some (t, v1) \<Longrightarrow> bits2int t qlen = Inr s0 \<Longrightarrow>
   step_H hf order qlen rolen k v retry_gen =
     (if 1 \<le> s0 \<and> s0 < order
      then (if retry_gen \<le> 0 then Some (Inr s0)
            else step_H hf order qlen rolen (hmac_digest hf k (v1 @ [0]))
                   (hmac_digest hf (hmac_digest hf k (v1 @ [0])) v1) (retry_gen - 1))
      else step_H hf order qlen rolen (hmac_digest hf k (v1 @ [0]))
             (hmac_digest hf (hmac_digest hf k (v1 @ [0])) v1) retry_gen)"
  by (subst step_H.simps) (simp add: Let_def)

lemma candidate_0:
  "candidate hf qlen rolen k v 0 = Some s
     \<longleftrightarrow> (\<exists>t v1. step_H2 hf rolen k v [] = Some (t, v1) \<and> bits2int t qlen = Inr s)"
  by (subst candidate.simps) (auto split: option.splits sum.splits)

lemma candidate_Suc:
  "step_H2 hf rolen k v [] = Some (t, v1) \<Longrightarrow> bits2int t qlen = Inr s0 \<Longrightarrow>
   candidate hf qlen rolen k v (Suc m)
     = candidate hf qlen rolen (hmac_digest hf k (v1 @ [0]))
         (hmac_digest hf (hmac_digest hf k (v1 @ [0])) v1) m"
  by (subst candidate.simps) (simp add: Let_def)

lemma candidate_defined:
  "candidate hf qlen rolen k v n = Some s \<Longrightarrow>
   \<exists>t v1 s0. step_H2 hf rolen k v [] = Some (t, v1) \<and> bits2int t qlen = Inr s0"
  by (subst (asm) candidate.simps) (auto split: option.splits sum.splits)

lemma valid_before_Suc:
  assumes "step_H2 hf rolen k v [] = Some (t, v1)" and "bits2int t qlen = Inr s0"
  shows "valid_before hf order qlen rolen k v (Suc m)
     = (if 1 \<le> s0 \<and> s0 < order then 1 else 0)
       + valid_before hf order qlen rolen (hmac_digest hf k (v1 @ [0]))
           (hmac_digest hf (hmac_digest hf k (v1 @ [0])) v1) m"
proof -
  have c0: "candidate hf qlen rolen k v 0 = Some s0"
    using assms by (simp add: candidate_0)
  have up: "[0..<Suc m] = 0 # map Suc [0..<m]"
    by (simp add: upt_conv_Cons map_Suc_upt del: upt_Suc)
  show ?thesis
    unfolding valid_before_def up
    by (simp add: c0 filter_map o_def candidate_Suc [OF assms] del: upt_Suc)
qed

lemma step_H_candidate:
  "candidate hf qlen rolen k v n = Some s \<Longrightarrow> 1 \<le> s \<Longrightarrow> s < order \<Longrightarrow>
   valid_before hf order qlen rolen k v n = r \<Longrightarrow>
   step_H hf order qlen rolen k v (int r) = Some (Inr s)"
proof (induction n arbitrary: k v r)
  case 0
  then obtain t v1 where "step_H2 hf rolen k v [] = Some (t, v1)" "bits2int t qlen = Inr s"
    by (auto simp add: candidate_0)
  moreover have "r = 0" using 0 by (simp add: valid_before_def)
  ultimately show ?case
    using 0 by (simp add: step_H_unfold)
next
  case (Suc m)
  from candidate_defined [OF Suc.prems(1)]
  obtain t v1 s0 where h: "step_H2 hf rolen k v [] = Some (t, v1)" "bits2int t qlen = Inr s0"
    by blast
  let ?k1 = "hmac_digest hf k (v1 @ [0])"
  let ?v2 = "hmac_digest hf ?k1 v1"
  have c: "candidate hf qlen rolen ?k1 ?v2 m = Some s"
    using Suc.prems(1) candidate_Suc [OF h] by simp
  have vb: "r = (if 1 \<le> s0 \<and> s0 < order then 1 else 0)
              + valid_before hf order qlen rolen ?k1 ?v2 m"
    using Suc.prems(4) valid_before_Suc [OF h] by simp
  show ?case
  proof (cases "1 \<le> s0 \<and> s0 < order")
    case True
    then obtain r' where r': "r = Suc r'" "valid_before hf order qlen rolen ?k1 ?v2 m = r'"
      using vb by simp
    have "step_H hf order qlen rolen ?k1 ?v2 (int r') = Some (Inr s)"
      using Suc.IH [OF c Suc.prems(2,3) r'(2)] .
    moreover have "int r - 1 = int r'" using r' by simp
    ultimately show ?thesis
      using True r'(1) by (simp add: step_H_unfold [OF h])
  next
    case False
    then have "valid_before hf order qlen rolen ?k1 ?v2 m = r" using vb by simp
    then have "step_H hf order qlen rolen ?k1 ?v2 (int r) = Some (Inr s)"
      using Suc.IH [OF c Suc.prems(2,3)] by simp
    then show ?thesis
      by (simp only: step_H_unfold [OF h] False if_False)
  qed
qed


text \<open>
  Claim C6, as the code has it. \<open>generate_k\<close> is a function of its arguments alone (it
  reads no clock and no random source), so two calls with identical arguments return the
  same. Every scalar it returns lies in \<open>[1, order - 1]\<close>. With \<open>retry_gen = r \<ge> 0\<close> it
  returns the candidate of the candidate sequence that has exactly \<open>r\<close> valid candidates
  before it and is itself valid, whenever the sequence has one: with \<open>retry_gen = 0\<close> the
  first valid candidate, with \<open>retry_gen = 1\<close> the second. That the second differs from the
  first is not part of what the code ensures.
\<close>

theorem generate_k_candidates:
  "(order = order' \<and> secexp = secexp' \<and> hf = hf' \<and> data = data' \<and> retry_gen = retry_gen'
      \<and> extra_entropy = extra_entropy'
      \<longrightarrow> generate_k ut order secexp hf data retry_gen extra_entropy
            = generate_k ut order' secexp' hf' data' retry_gen' extra_entropy')
   \<and> (generate_k ut order secexp hf data retry_gen extra_entropy = Some (Inr s)
      \<longrightarrow> 1 \<le> s \<and> s \<le> order - 1)
   \<and> (generate_k_init ut order secexp hf data extra_entropy = Inr (k, v)
       \<and> candidate hf (bit_length order) ((bit_length order + 7) div 8) k v n = Some c
       \<and> 1 \<le> c \<and> c < order
       \<and> valid_before hf order (bit_length order) ((bit_length order + 7) div 8) k v n = r
      \<longrightarrow> generate_k ut order secexp hf data (int r) extra_entropy = Some (Inr c))"
proof (intro conjI impI)
  assume "order = order' \<and> secexp = secexp' \<and> hf = hf' \<and> data = data' \<and> retry_gen = retry_gen'
      \<and> extra_entropy = extra_entropy'"
  then show "generate_k ut order secexp hf data retry_gen extra_entropy
            = generate_k ut order' secexp' hf' data' retry_gen' extra_entropy'"
    by simp
next
  assume g: "generate_k ut order secexp hf data retry_gen extra_entropy = Some (Inr s)"
  then obtain k v where
    "step_H hf order (bit_length order) ((bit_length order + 7) div 8) k v retry_gen = Some (Inr s)"
    by (auto simp add: generate_k_def Let_def split: sum.splits)
  from step_H_range [OF this] show "1 \<le> s" and "s \<le> order - 1" by simp_all
next
  assume h: "generate_k_init ut order secexp hf data extra_entropy = Inr (k, v)
       \<and> candidate hf (bit_length order) ((bit_length order + 7) div 8) k v n = Some c
       \<and> 1 \<le> c \<and> c < order
       \<and> valid_before hf order (bit_length order) ((bit_length order + 7) div 8) k v n = r"
  then have a: "candidate hf (bit_length order) ((bit_length order + 7) div 8) k v n = Some c"
    and b: "1 \<le> c" and c: "c < order"
    and d: "valid_before hf order (bit_length order) ((bit_length order + 7) div 8) k v n = r"
    by simp_all
  have "step_H hf order (bit_length order) ((bit_length order + 7) div 8) k v (int r)
               = Some (Inr c)"
    using a b c d by (rule step_H_candidate)
  with h show "generate_k ut order secexp hf data (int r) extra_entropy = Some (Inr c)"
    by (simp add: generate_k_def Let_def)
qed

lemma sum_hash_init: "generate_k_init toy_util 200 1 sum_hash [5] [] = Inr ([252], [211])"
  by code_simp

lemma sum_hash_candidate_1:
  "candidate sum_hash (bit_length 200) ((bit_length 200 + 7) div 8) [252] [211] 1 = Some 47"
  by code_simp

lemma sum_hash_valid_before_1:
  "valid_before sum_hash 200 (bit_length 200) ((bit_length 200 + 7) div 8) [252] [211] 1 = 1"
  by code_simp

theorem generate_k_candidates_witness:
  "generate_k toy_util 200 1 sum_hash [5] 1 [] = Some (Inr 47) \<and> (1::int) \<le> 47 \<and> (47::int) \<le> 200 - 1"
proof -
  note T = generate_k_candidates [of 200 200 1 1 sum_hash sum_hash "[5]" "[5]" 1 1 "[]" "[]"
        toy_util 47 "[252]" "[211]" 1 47 1]
  have b: "(1::int) \<le> 47 \<and> (47::int) < 200" by simp
  from T sum_hash_init sum_hash_candidate_1 sum_hash_valid_before_1 b
  have "generate_k toy_util 200 1 sum_hash [5] (int 1) [] = Some (Inr 47)"
    by blast
  then have g: "generate_k toy_util 200 1 sum_hash [5] 1 [] = Some (Inr 47)" by simp
  with T have "(1::int) \<le> 47 \<and> (47::int) \<le> 200 - 1" by blast
  with g show ?thesis by blast
qed

text \<open>
  The claim as first stated, that the scalar returned with \<open>retry_gen = 1\<close> is distinct from
  the one returned with \<open>retry_gen = 0\<close>, fails for a hash function whose digests repeat: with
  a constant digest every candidate is the same valid scalar.
\<close>

theorem generate_k_distinct_counterexample:
  "generate_k toy_util 200 1 const_hash [5] 0 [] = Some (Inr 1)
   \<and> generate_k toy_util 200 1 const_hash [5] 1 [] = Some (Inr 1)"
  by code_simp

end
